theory Spec2Isabelle
  imports Main
begin

section \<open>Shared vocabulary of the two cleanup scripts\<close>

text \<open>
  Both scripts are sequences of remote calls and console messages wrapped in a top-level
  \<^verbatim>\<open>try\<close>. A run is modelled as a function from the remote store (and the replies of
  the environment) to the final store, the trace of calls and messages in the order the
  script issues them, and the exit status of the process.

  Exceptions are values. Only the Purger tells \<^verbatim>\<open>redis.ConnectionError\<close> from any
  other \<^verbatim>\<open>Exception\<close>; the string is the text of \<^verbatim>\<open>str(error)\<close>.
\<close>

datatype exn = ConnectionError string | OtherError string

record ('s, 'ev) run =
  final :: 's
  trace :: "'ev list"
  exit_status :: nat

text \<open>Python's \<^verbatim>\<open>s.startswith(p)\<close>.\<close>

definition startswith :: "string \<Rightarrow> string \<Rightarrow> bool" where
  "startswith p s = (take (length p) s = p)"

section \<open>Collection Wiper: \<^verbatim>\<open>scripts/cleanup-databases.py\<close>\<close>

subsection \<open>The document store\<close>

text \<open>
  A server holds, for every database name, its collections in the order the server
  enumerates them, each with its documents. A database that does not exist has no
  collections. During a run the store changes through the calls of the script only.
\<close>

type_synonym 'd mongo = "string \<Rightarrow> (string \<times> 'd list) list"

definition list_collection_names :: "'d mongo \<Rightarrow> string \<Rightarrow> string list" where
  "list_collection_names s db = map fst (s db)"

definition count_documents :: "'d mongo \<Rightarrow> string \<Rightarrow> string \<Rightarrow> nat" where
  "count_documents s db c = (case map_of (s db) c of None \<Rightarrow> 0 | Some ds \<Rightarrow> length ds)"

definition delete_many :: "'d mongo \<Rightarrow> string \<Rightarrow> string \<Rightarrow> 'd mongo" where
  "delete_many s db c = s(db := map (\<lambda>(n, ds). (n, if n = c then [] else ds)) (s db))"

text \<open>
  Every remote call may raise instead of answering. The replies of the environment say
  which calls raise, and with what; a call that raises leaves the store as it was.
\<close>

record mongo_env =
  connect_error :: "exn option"
  server_info_error :: "exn option"
  list_error :: "string \<Rightarrow> exn option"
  count_error :: "string \<Rightarrow> string \<Rightarrow> exn option"
  delete_error :: "string \<Rightarrow> string \<Rightarrow> exn option"
  close_error :: "exn option"

subsection \<open>Messages and calls\<close>

text \<open>
  One constructor for each \<^verbatim>\<open>log(...)\<close> of the script, carrying the values the
  message interpolates; colours and glyphs are left out.
\<close>

datatype wiper_msg =
    Separator
  | Title
  | AtlasHost
  | DatabasesLine "string list"
  | Connecting
  | Connected
  | Cleaning string
  | NoCollections
  | Found nat
  | Deleted nat string
  | Failed string exn
  | DatabaseCleaned string
  | Completed
  | Closed
  | Error exn

datatype wiper_event =
    Log wiper_msg
  | MongoClient
  | ServerInfo
  | ListCollectionNames string
  | CountDocuments string string
  | DeleteMany string string
  | Close

subsection \<open>The script\<close>

definition DATABASES :: "string list" where
  "DATABASES = [''inventory'', ''order'', ''payment'', ''product'', ''auth'']"

text \<open>
  The body of the inner \<^verbatim>\<open>try\<close> for one collection (lines 85 to 91): count, delete,
  report; an exception of either call is caught and logged with the collection's name.
\<close>

definition clean_collection ::
  "mongo_env \<Rightarrow> string \<Rightarrow> string \<Rightarrow> 'd mongo \<Rightarrow> 'd mongo \<times> wiper_event list" where
  "clean_collection env db c s =
     (case count_error env db c of
        Some e \<Rightarrow> (s, [CountDocuments db c, Log (Failed c e)])
      | None \<Rightarrow>
          (let count = count_documents s db c in
           case delete_error env db c of
             Some e \<Rightarrow> (s, [CountDocuments db c, DeleteMany db c, Log (Failed c e)])
           | None \<Rightarrow>
               (delete_many s db c,
                [CountDocuments db c, DeleteMany db c, Log (Deleted count c)])))"

text \<open>
  The loop over the enumerated collection names (lines 80 to 91). The names were fetched
  once, before the loop; system collections are skipped.
\<close>

fun clean_collections ::
  "mongo_env \<Rightarrow> string \<Rightarrow> string list \<Rightarrow> 'd mongo \<Rightarrow> 'd mongo \<times> wiper_event list" where
  "clean_collections env db [] s = (s, [])"
| "clean_collections env db (c # cs) s =
     (if startswith ''system.'' c then clean_collections env db cs s
      else
        (case clean_collection env db c s of
           (s1, t1) \<Rightarrow>
             (case clean_collections env db cs s1 of
                (s2, t2) \<Rightarrow> (s2, t1 @ t2))))"

text \<open>
  The loop over the database names (lines 65 to 93). An exception of
  \<^verbatim>\<open>list_collection_names\<close> is not caught here: it leaves the loop with the store and
  the trace reached so far.
\<close>

fun clean_databases ::
  "mongo_env \<Rightarrow> string list \<Rightarrow> 'd mongo \<Rightarrow> 'd mongo \<times> wiper_event list \<times> exn option" where
  "clean_databases env [] s = (s, [], None)"
| "clean_databases env (db # dbs) s =
     (case list_error env db of
        Some e \<Rightarrow> (s, [Log (Cleaning db), ListCollectionNames db], Some e)
      | None \<Rightarrow>
          (let collections = list_collection_names s db in
           if length collections = 0 then
             (case clean_databases env dbs s of
                (s2, t2, r) \<Rightarrow>
                  (s2, [Log (Cleaning db), ListCollectionNames db, Log NoCollections] @ t2, r))
           else
             (case clean_collections env db collections s of
                (s1, t1) \<Rightarrow>
                  (case clean_databases env dbs s1 of
                     (s2, t2, r) \<Rightarrow>
                       (s2,
                        [Log (Cleaning db), ListCollectionNames db,
                         Log (Found (length collections))]
                          @ t1 @ [Log (DatabaseCleaned db)] @ t2,
                        r)))))"

definition banner :: "wiper_event list" where
  "banner =
     [Log Separator, Log Title, Log Separator, Log AtlasHost, Log (DatabasesLine DATABASES),
      Log Separator]"

text \<open>
  \<^verbatim>\<open>main\<close> of \<^verbatim>\<open>cleanup-databases.py\<close>. The outer handler logs the exception and
  calls \<^verbatim>\<open>sys.exit(1)\<close>; a run that reaches the end of \<^verbatim>\<open>main\<close> exits with 0.
\<close>

definition cleanup_databases_main ::
  "mongo_env \<Rightarrow> 'd mongo \<Rightarrow> ('d mongo, wiper_event) run" where
  "cleanup_databases_main env s =
     (case connect_error env of
        Some e \<Rightarrow>
          \<lparr>final = s, trace = banner @ [Log Connecting, MongoClient, Log (Error e)],
           exit_status = 1\<rparr>
      | None \<Rightarrow>
          (case server_info_error env of
             Some e \<Rightarrow>
               \<lparr>final = s,
                trace = banner @ [Log Connecting, MongoClient, ServerInfo, Log (Error e)],
                exit_status = 1\<rparr>
           | None \<Rightarrow>
               (case clean_databases env DATABASES s of
                  (s1, t1, Some e) \<Rightarrow>
                    \<lparr>final = s1,
                     trace = banner @ [Log Connecting, MongoClient, ServerInfo, Log Connected]
                       @ t1 @ [Log (Error e)],
                     exit_status = 1\<rparr>
                | (s1, t1, None) \<Rightarrow>
                    (case close_error env of
                       Some e \<Rightarrow>
                         \<lparr>final = s1,
                          trace = banner
                            @ [Log Connecting, MongoClient, ServerInfo, Log Connected] @ t1
                            @ [Log Separator, Log Completed, Log Separator, Close,
                               Log (Error e)],
                          exit_status = 1\<rparr>
                     | None \<Rightarrow>
                         \<lparr>final = s1,
                          trace = banner
                            @ [Log Connecting, MongoClient, ServerInfo, Log Connected] @ t1
                            @ [Log Separator, Log Completed, Log Separator, Close,
                               Log Closed],
                          exit_status = 0\<rparr>))))"

section \<open>Key Pattern Purger: \<^verbatim>\<open>scripts/cleanup-redis.py\<close>\<close>

subsection \<open>The key-value store\<close>

text \<open>
  Keys are byte strings (the client is created without \<^verbatim>\<open>decode_responses\<close>). The
  store lists its entries in the order the server enumerates them. During a run the store
  changes through the calls of the script only: no other client writes and no key expires.
\<close>

type_synonym 'v redis = "(string \<times> 'v) list"

text \<open>
  The server's glob matching, for patterns of literal bytes and \<^verbatim>\<open>*\<close> (the script's
  one pattern uses nothing else).
\<close>

fun glob :: "string \<Rightarrow> string \<Rightarrow> bool" where
  "glob [] s = (s = [])"
| "glob (p # ps) s =
     (if p = CHR ''*'' then
        glob ps s \<or> (case s of [] \<Rightarrow> False | c # t \<Rightarrow> glob (p # ps) t)
      else (case s of [] \<Rightarrow> False | c # t \<Rightarrow> c = p \<and> glob ps t))"

definition keys :: "'v redis \<Rightarrow> string \<Rightarrow> string list" where
  "keys s pattern = filter (glob pattern) (map fst s)"

definition delete :: "'v redis \<Rightarrow> string \<Rightarrow> 'v redis" where
  "delete s k = filter (\<lambda>(k', v). k' \<noteq> k) s"

text \<open>
  The replies of the environment: which calls raise, the remaining time-to-live the
  server reports for a key, and the line the user types at the prompt (or the exception
  of \<^verbatim>\<open>input\<close>, as at end of file).
\<close>

record redis_env =
  ping_error :: "exn option"
  keys_error :: "exn option"
  ttl_reply :: "string \<Rightarrow> exn + int"
  input_reply :: "exn + string"
  del_error :: "string \<Rightarrow> exn option"

subsection \<open>Python's string and bytes methods\<close>

text \<open>
  \<^verbatim>\<open>key.decode('utf-8')\<close> raises on bytes that are not well-formed UTF-8: a stray
  continuation byte, a truncated or overlong sequence, a surrogate, a code point above
  U+10FFFF.
\<close>

definition byte_in :: "nat \<Rightarrow> nat \<Rightarrow> char \<Rightarrow> bool" where
  "byte_in lo hi c = (lo \<le> of_char c \<and> of_char c \<le> hi)"

fun utf8_valid :: "string \<Rightarrow> bool" where
  "utf8_valid [] = True"
| "utf8_valid (b # bs) =
     (let n = (of_char b :: nat) in
      if n < 128 then utf8_valid bs
      else if 194 \<le> n \<and> n \<le> 223 then
        (case bs of c1 # r \<Rightarrow> byte_in 128 191 c1 \<and> utf8_valid r | _ \<Rightarrow> False)
      else if 224 \<le> n \<and> n \<le> 239 then
        (case bs of
           c1 # c2 # r \<Rightarrow>
             byte_in (if n = 224 then 160 else 128) (if n = 237 then 159 else 191) c1
             \<and> byte_in 128 191 c2 \<and> utf8_valid r
         | _ \<Rightarrow> False)
      else if 240 \<le> n \<and> n \<le> 244 then
        (case bs of
           c1 # c2 # c3 # r \<Rightarrow>
             byte_in (if n = 240 then 144 else 128) (if n = 244 then 143 else 191) c1
             \<and> byte_in 128 191 c2 \<and> byte_in 128 191 c3 \<and> utf8_valid r
         | _ \<Rightarrow> False)
      else False)"

text \<open>
  \<^verbatim>\<open>str.strip()\<close> and \<^verbatim>\<open>str.lower()\<close> on the typed line. A character of the line is
  a code point below 256; on these, Python's whitespace is 9 to 13, 28 to 32, 133 and 160,
  and the letters with a lowercase form are A to Z and 192 to 222 without 215.
\<close>

definition isspace :: "char \<Rightarrow> bool" where
  "isspace c =
     (let n = (of_char c :: nat) in (9 \<le> n \<and> n \<le> 13) \<or> (28 \<le> n \<and> n \<le> 32) \<or> n = 133 \<or> n = 160)"

definition strip :: "string \<Rightarrow> string" where
  "strip s = rev (dropWhile isspace (rev (dropWhile isspace s)))"

definition lower_char :: "char \<Rightarrow> char" where
  "lower_char c =
     (let n = (of_char c :: nat) in
      if (65 \<le> n \<and> n \<le> 90) \<or> (192 \<le> n \<and> n \<le> 222 \<and> n \<noteq> 215) then char_of (n + 32) else c)"

definition lower :: "string \<Rightarrow> string" where
  "lower s = map lower_char s"

subsection \<open>Messages and calls\<close>

datatype purger_msg =
    ConnectingTo
  | ConnectedTo
  | NoKeysFound string
  | FoundKeys nat string
  | SampleHeader
  | Sample string int
  | MoreKeys nat
  | Blank
  | Cancelled
  | Deleting nat
  | Progress nat nat
  | Success nat
  | FailedToConnect exn
  | ErrorMsg exn

datatype purger_event =
    Print purger_msg
  | Ping
  | Keys string
  | Ttl string
  | Input nat
  | Delete string

subsection \<open>The script\<close>

definition pattern :: string where
  "pattern = ''inventory:event:processed:*''"

text \<open>
  The two handlers of the top-level \<^verbatim>\<open>try\<close> (lines 61 to 66): each prints its own
  message; both end in \<^verbatim>\<open>sys.exit(1)\<close>.
\<close>

definition handler :: "exn \<Rightarrow> purger_event list" where
  "handler e =
     (case e of
        ConnectionError m \<Rightarrow> [Print (FailedToConnect e)]
      | OtherError m \<Rightarrow> [Print (ErrorMsg e)])"

text \<open>
  The preview loop over \<^verbatim>\<open>keys[:10]\<close> (lines 33 to 36): decode the key, ask its
  time-to-live, print both.
\<close>

fun preview :: "redis_env \<Rightarrow> string list \<Rightarrow> purger_event list \<times> exn option" where
  "preview env [] = ([], None)"
| "preview env (key # ks) =
     (if \<not> utf8_valid key then ([], Some (OtherError ''UnicodeDecodeError''))
      else
        (case ttl_reply env key of
           Inl e \<Rightarrow> ([Ttl key], Some e)
         | Inr ttl \<Rightarrow>
             (case preview env ks of
                (t, r) \<Rightarrow> (Ttl key # Print (Sample key ttl) # t, r))))"

text \<open>
  The deletion loop (lines 52 to 57): one \<^verbatim>\<open>DEL\<close> for each scanned key, the counter
  incremented after each, a progress line whenever the counter is a multiple of 100.
\<close>

fun delete_loop ::
  "redis_env \<Rightarrow> nat \<Rightarrow> string list \<Rightarrow> nat \<Rightarrow> 'v redis
     \<Rightarrow> 'v redis \<times> purger_event list \<times> nat \<times> exn option" where
  "delete_loop env len_keys [] deleted s = (s, [], deleted, None)"
| "delete_loop env len_keys (key # ks) deleted s =
     (case del_error env key of
        Some e \<Rightarrow> (s, [Delete key], deleted, Some e)
      | None \<Rightarrow>
          (let s1 = delete s key;
               deleted1 = deleted + 1;
               t1 = Delete key #
                 (if deleted1 mod 100 = 0 then [Print (Progress deleted1 len_keys)] else [])
           in case delete_loop env len_keys ks deleted1 s1 of
                (s2, t2, d, r) \<Rightarrow> (s2, t1 @ t2, d, r)))"

text \<open>
  \<^verbatim>\<open>main\<close> of \<^verbatim>\<open>cleanup-redis.py\<close>. Both \<^verbatim>\<open>return\<close>s inside the \<^verbatim>\<open>try\<close> and
  the end of \<^verbatim>\<open>main\<close> exit with 0.
\<close>

definition cleanup_redis_main :: "redis_env \<Rightarrow> 'v redis \<Rightarrow> ('v redis, purger_event) run" where
  "cleanup_redis_main env s =
     (case ping_error env of
        Some e \<Rightarrow>
          \<lparr>final = s, trace = [Print ConnectingTo, Ping] @ handler e, exit_status = 1\<rparr>
      | None \<Rightarrow>
          (case keys_error env of
             Some e \<Rightarrow>
               \<lparr>final = s,
                trace = [Print ConnectingTo, Ping, Print ConnectedTo, Keys pattern] @ handler e,
                exit_status = 1\<rparr>
           | None \<Rightarrow>
               (let ks = keys s pattern;
                    t0 = [Print ConnectingTo, Ping, Print ConnectedTo, Keys pattern] in
                if ks = [] then
                  \<lparr>final = s, trace = t0 @ [Print (NoKeysFound pattern)], exit_status = 0\<rparr>
                else
                  (case preview env (take 10 ks) of
                     (t1, Some e) \<Rightarrow>
                       \<lparr>final = s,
                        trace = t0 @ [Print (FoundKeys (length ks) pattern), Print SampleHeader]
                          @ t1 @ handler e,
                        exit_status = 1\<rparr>
                   | (t1, None) \<Rightarrow>
                       (let t2 = t0
                              @ [Print (FoundKeys (length ks) pattern), Print SampleHeader]
                              @ t1
                              @ [if length ks > 10 then Print (MoreKeys (length ks - 10))
                                 else Print Blank,
                                 Input (length ks)] in
                        case input_reply env of
                          Inl e \<Rightarrow> \<lparr>final = s, trace = t2 @ handler e, exit_status = 1\<rparr>
                        | Inr line \<Rightarrow>
                            (let confirm = lower (strip line) in
                             if confirm \<noteq> ''yes'' then
                               \<lparr>final = s, trace = t2 @ [Print Cancelled], exit_status = 0\<rparr>
                             else
                               (case delete_loop env (length ks) ks 0 s of
                                  (s1, t3, deleted, Some e) \<Rightarrow>
                                    \<lparr>final = s1,
                                     trace = t2 @ [Print (Deleting (length ks))] @ t3
                                       @ handler e,
                                     exit_status = 1\<rparr>
                                | (s1, t3, deleted, None) \<Rightarrow>
                                    \<lparr>final = s1,
                                     trace = t2 @ [Print (Deleting (length ks))] @ t3
                                       @ [Print (Success deleted)],
                                     exit_status = 0\<rparr>)))))))"

section \<open>Observations on runs\<close>

subsection \<open>What a Wiper trace shows\<close>

text \<open>A document server on which every call succeeds.\<close>

definition reliable :: mongo_env where
  "reliable =
     \<lparr>connect_error = None, server_info_error = None, list_error = (\<lambda>db. None),
      count_error = (\<lambda>db c. None), delete_error = (\<lambda>db c. None), close_error = None\<rparr>"

text \<open>The document counts of the deletion reports of a run, in order.\<close>

definition deleted_counts :: "wiper_event list \<Rightarrow> nat list" where
  "deleted_counts t =
     concat (map (\<lambda>ev. case ev of Log (Deleted n c) \<Rightarrow> [n] | _ \<Rightarrow> []) t)"

text \<open>
  A server with two of the listed databases, one of them holding a system collection,
  and a database that is not listed.
\<close>

definition sample_mongo :: "nat mongo" where
  "sample_mongo =
     (\<lambda>db. [])(''inventory'' := [(''items'', [1, 2, 3]), (''system.views'', [4])],
              ''order'' := [(''orders'', [5, 6])],
              ''billing'' := [(''invoices'', [7])])"

text \<open>
  What a trace shows of one collection that was attempted: it was counted; if the count
  raised, the failure was logged with its name; otherwise the delete was issued, and if
  that raised, the failure was logged with its name.
\<close>

definition handled :: "mongo_env \<Rightarrow> string \<Rightarrow> string \<Rightarrow> wiper_event list \<Rightarrow> bool" where
  "handled env db c t =
     (CountDocuments db c \<in> set t \<and>
      (case count_error env db c of
         Some e \<Rightarrow> Log (Failed c e) \<in> set t
       | None \<Rightarrow>
           DeleteMany db c \<in> set t \<and>
           (case delete_error env db c of
              Some e \<Rightarrow> Log (Failed c e) \<in> set t
            | None \<Rightarrow> True)))"

text \<open>A server on which deleting from the collection \<^verbatim>\<open>items\<close> times out.\<close>

definition flaky :: mongo_env where
  "flaky = reliable\<lparr>delete_error :=
     (\<lambda>db c. if c = ''items'' then Some (OtherError ''timeout'') else None)\<rparr>"


subsection \<open>What a Purger trace shows\<close>

text \<open>
  The keys a run issued a \<^verbatim>\<open>DEL\<close> for, in order; how often it showed the confirmation
  prompt; how often it scanned the key space.
\<close>

definition deleted_keys :: "purger_event list \<Rightarrow> string list" where
  "deleted_keys t = concat (map (\<lambda>ev. case ev of Delete k \<Rightarrow> [k] | _ \<Rightarrow> []) t)"

definition prompts :: "purger_event list \<Rightarrow> nat" where
  "prompts t = length (filter (\<lambda>ev. case ev of Input n \<Rightarrow> True | _ \<Rightarrow> False) t)"

definition scans :: "purger_event list \<Rightarrow> nat" where
  "scans t = length (filter (\<lambda>ev. case ev of Keys p \<Rightarrow> True | _ \<Rightarrow> False) t)"

text \<open>The progress lines a run printed: the counter and the total of each.\<close>

definition progress_lines :: "purger_event list \<Rightarrow> (nat \<times> nat) list" where
  "progress_lines t =
     concat (map (\<lambda>ev. case ev of Print (Progress d n) \<Rightarrow> [(d, n)] | _ \<Rightarrow> []) t)"

text \<open>
  A key-value server on which every call succeeds and no key expires, with a user who
  types the given line.
\<close>

definition answering :: "string \<Rightarrow> redis_env" where
  "answering line =
     \<lparr>ping_error = None, keys_error = None, ttl_reply = (\<lambda>k. Inr (- 1)),
      input_reply = Inr line, del_error = (\<lambda>k. None)\<rparr>"

text \<open>A store of 250 keys that match the pattern, all different.\<close>

definition store250 :: "nat redis" where
  "store250 = map (\<lambda>i. (''inventory:event:processed:'' @ replicate i (CHR ''k''), i)) [0..<250]"

section \<open>Properties of the Key Pattern Purger\<close>

subsection \<open>Reading traces\<close>

lemma deleted_keys_simps [simp]:
  "deleted_keys [] = []"
  "deleted_keys (Delete k # t) = k # deleted_keys t"
  "deleted_keys (Print m # t) = deleted_keys t"
  "deleted_keys (Ping # t) = deleted_keys t"
  "deleted_keys (Keys p # t) = deleted_keys t"
  "deleted_keys (Ttl k # t) = deleted_keys t"
  "deleted_keys (Input n # t) = deleted_keys t"
  "deleted_keys (t1 @ t2) = deleted_keys t1 @ deleted_keys t2"
  by (simp_all add: deleted_keys_def)

lemma prompts_simps [simp]:
  "prompts [] = 0"
  "prompts (Delete k # t) = prompts t"
  "prompts (Print m # t) = prompts t"
  "prompts (Ping # t) = prompts t"
  "prompts (Keys p # t) = prompts t"
  "prompts (Ttl k # t) = prompts t"
  "prompts (Input n # t) = Suc (prompts t)"
  "prompts (t1 @ t2) = prompts t1 + prompts t2"
  by (simp_all add: prompts_def)

lemma scans_simps [simp]:
  "scans [] = 0"
  "scans (Delete k # t) = scans t"
  "scans (Print m # t) = scans t"
  "scans (Ping # t) = scans t"
  "scans (Keys p # t) = Suc (scans t)"
  "scans (Ttl k # t) = scans t"
  "scans (Input n # t) = scans t"
  "scans (t1 @ t2) = scans t1 + scans t2"
  by (simp_all add: scans_def)

lemma handler_silent [simp]:
  "deleted_keys (handler e) = []" "prompts (handler e) = 0" "scans (handler e) = 0"
  by (cases e; simp add: handler_def)+

lemma preview_silent [simp]:
  "deleted_keys (fst (preview env ks)) = []"
  "prompts (fst (preview env ks)) = 0"
  "scans (fst (preview env ks)) = 0"
  by (induction ks; auto simp: split_beta split: sum.splits)+

lemma delete_loop_silent [simp]:
  "prompts (fst (snd (delete_loop env n ks d s))) = 0"
  "scans (fst (snd (delete_loop env n ks d s))) = 0"
  by (induction ks arbitrary: d s; auto simp: split_beta Let_def split: option.splits)+

subsection \<open>No matching key\<close>

text \<open>
  Claim C4. When the server answers the liveness check and the scan, and the scan returns
  no key, the run prints that no key matches the pattern and stops: the store is as it
  was, the exit status is 0, the confirmation prompt is never shown and no \<^verbatim>\<open>DEL\<close> is
  issued.
\<close>

theorem purger_no_keys:
  assumes "ping_error env = None" and "keys_error env = None" and "keys s pattern = []"
  shows "cleanup_redis_main env s =
           \<lparr>final = s,
            trace = [Print ConnectingTo, Ping, Print ConnectedTo, Keys pattern,
                     Print (NoKeysFound pattern)],
            exit_status = 0\<rparr>
         \<and> prompts (trace (cleanup_redis_main env s)) = 0
         \<and> deleted_keys (trace (cleanup_redis_main env s)) = []"
  using assms by (simp add: cleanup_redis_main_def)

theorem purger_no_keys_witness:
  "ping_error (answering ''yes'') = None \<and> keys_error (answering ''yes'') = None
   \<and> keys [(''session:42'', 7 :: nat)] pattern = []
   \<and> cleanup_redis_main (answering ''yes'') [(''session:42'', 7 :: nat)] =
       \<lparr>final = [(''session:42'', 7)],
        trace = [Print ConnectingTo, Ping, Print ConnectedTo, Keys pattern,
                 Print (NoKeysFound pattern)],
        exit_status = 0\<rparr>"
proof -
  have h: "keys [(''session:42'', 7 :: nat)] pattern = []"
    by (simp add: keys_def pattern_def)
  show ?thesis
    using h purger_no_keys [of "answering ''yes''" "[(''session:42'', 7 :: nat)]"]
    by (simp add: answering_def)
qed

subsection \<open>The deletion loop\<close>

lemma map_of_delete: "k' \<noteq> k \<Longrightarrow> map_of (delete s k) k' = map_of s k'"
  by (induction s) (auto simp: delete_def)

lemma delete_loop_frame:
  "k \<notin> set ks \<Longrightarrow> map_of (fst (delete_loop env n ks d s)) k = map_of s k"
  by (induction ks arbitrary: d s)
     (auto simp: map_of_delete Let_def split_beta split: option.splits)

lemma delete_loop_issues_prefix:
  "\<exists>m. deleted_keys (fst (snd (delete_loop env n ks d s))) = take m ks"
proof (induction ks arbitrary: d s)
  case Nil
  then show ?case by simp
next
  case (Cons k ks)
  show ?case
  proof (cases "del_error env k")
    case (Some e)
    then have "deleted_keys (fst (snd (delete_loop env n (k # ks) d s))) = take 1 (k # ks)"
      by simp
    then show ?thesis by blast
  next
    case None
    obtain m where m:
      "deleted_keys (fst (snd (delete_loop env n ks (d + 1) (delete s k)))) = take m ks"
      using Cons.IH by blast
    have "deleted_keys (fst (snd (delete_loop env n (k # ks) d s))) = take (Suc m) (k # ks)"
      using None m by (simp add: Let_def split_beta)
    then show ?thesis by blast
  qed
qed

lemma delete_loop_issues_all:
  "snd (snd (snd (delete_loop env n ks d s))) = None \<Longrightarrow>
   deleted_keys (fst (snd (delete_loop env n ks d s))) = ks"
  by (induction ks arbitrary: d s)
     (auto simp: Let_def split_beta split: option.splits)

lemma delete_loop_issues_first:
  "ks \<noteq> [] \<Longrightarrow> deleted_keys (fst (snd (delete_loop env n ks d s))) \<noteq> []"
  by (cases ks) (auto simp: Let_def split_beta split: option.splits)

subsection \<open>Declining the prompt\<close>

text \<open>
  Claim C3, as amended. Whenever the line typed at the prompt, stripped of surrounding
  whitespace and lowercased, is not \<^verbatim>\<open>yes\<close>, the store is left as it was and no
  \<^verbatim>\<open>DEL\<close> is issued; and if the run showed the prompt, it prints the cancellation
  and exits with status 0.
\<close>

theorem purger_declined:
  assumes "input_reply env = Inr line" and "lower (strip line) \<noteq> ''yes''"
  shows "final (cleanup_redis_main env s) = s
         \<and> deleted_keys (trace (cleanup_redis_main env s)) = []
         \<and> (prompts (trace (cleanup_redis_main env s)) \<noteq> 0 \<longrightarrow>
              exit_status (cleanup_redis_main env s) = 0
              \<and> last (trace (cleanup_redis_main env s)) = Print Cancelled)"
  using assms
  by (simp add: cleanup_redis_main_def Let_def split_beta split: option.splits sum.splits)

theorem purger_declined_witness:
  "input_reply (answering ''no'') = Inr ''no'' \<and> lower (strip ''no'') \<noteq> ''yes''
   \<and> prompts (trace (cleanup_redis_main (answering ''no'')
        [(''inventory:event:processed:a1'', 0 :: nat)])) \<noteq> 0
   \<and> final (cleanup_redis_main (answering ''no'')
        [(''inventory:event:processed:a1'', 0 :: nat)]) = [(''inventory:event:processed:a1'', 0)]
   \<and> exit_status (cleanup_redis_main (answering ''no'')
        [(''inventory:event:processed:a1'', 0 :: nat)]) = 0"
proof -
  have n: "lower (strip ''no'') \<noteq> ''yes''"
    by (simp add: lower_def strip_def isspace_def lower_char_def)
  have p: "prompts (trace (cleanup_redis_main (answering ''no'')
        [(''inventory:event:processed:a1'', 0 :: nat)])) \<noteq> 0"
    by (simp add: cleanup_redis_main_def answering_def keys_def pattern_def n byte_in_def Let_def)
  show ?thesis
    using n p purger_declined [of "answering ''no''" "''no''" "[(''inventory:event:processed:a1'', 0 :: nat)]"]
    by (simp add: answering_def)
qed

text \<open>
  Claim C3 as stated fails: the line \<^verbatim>\<open>YES\<close> is not the string \<^verbatim>\<open>yes\<close>, yet the
  run deletes the matching key.
\<close>

theorem purger_upper_case_yes_deletes:
  "input_reply (answering ''YES'') = Inr ''YES'' \<and> ''YES'' \<noteq> ''yes''
   \<and> final (cleanup_redis_main (answering ''YES'')
        [(''inventory:event:processed:a1'', 0 :: nat)]) \<noteq> [(''inventory:event:processed:a1'', 0)]
   \<and> deleted_keys (trace (cleanup_redis_main (answering ''YES'')
        [(''inventory:event:processed:a1'', 0 :: nat)])) = [''inventory:event:processed:a1'']"
proof -
  have n: "lower (strip ''YES'') = ''yes''"
    by code_simp
  show ?thesis
    by (simp add: cleanup_redis_main_def answering_def keys_def pattern_def n byte_in_def Let_def delete_def)
qed

subsection \<open>Normalising the answer\<close>

text \<open>
  Claim C9. In a run that reaches the prompt and reads a line, a \<^verbatim>\<open>DEL\<close> is issued
  exactly when the line, stripped of surrounding whitespace and lowercased, is
  \<^verbatim>\<open>yes\<close>; so the lines \<^verbatim>\<open>YES\<close>, \<^verbatim>\<open>Yes\<close> and \<^verbatim>\<open>yes\<close> between spaces confirm
  the deletion as well.
\<close>

theorem purger_confirmation_normalised:
  assumes "ping_error env = None" and "keys_error env = None"
    and "keys s pattern \<noteq> []"
    and "snd (preview env (take 10 (keys s pattern))) = None"
    and "input_reply env = Inr line"
  shows "(deleted_keys (trace (cleanup_redis_main env s)) \<noteq> [] \<longleftrightarrow> lower (strip line) = ''yes'')
         \<and> (line \<in> set [''YES'', ''Yes'', ''  yes  ''] \<longrightarrow>
              deleted_keys (trace (cleanup_redis_main env s)) \<noteq> [])"
proof -
  have iff: "deleted_keys (trace (cleanup_redis_main env s)) \<noteq> [] \<longleftrightarrow> lower (strip line) = ''yes''"
    using assms delete_loop_issues_first [of "keys s pattern" env "length (keys s pattern)" 0 s]
    by (simp add: cleanup_redis_main_def Let_def split_beta split: option.splits)
  have "lower (strip ''YES'') = ''yes''" "lower (strip ''Yes'') = ''yes''"
    "lower (strip ''  yes  '') = ''yes''"
    by code_simp+
  then have "line \<in> set [''YES'', ''Yes'', ''  yes  ''] \<Longrightarrow> lower (strip line) = ''yes''"
    by auto
  with iff show ?thesis by blast
qed

theorem purger_confirmation_normalised_witness:
  "ping_error (answering ''  yes  '') = None \<and> keys_error (answering ''  yes  '') = None
   \<and> keys [(''inventory:event:processed:a1'', 0 :: nat)] pattern \<noteq> []
   \<and> snd (preview (answering ''  yes  '')
        (take 10 (keys [(''inventory:event:processed:a1'', 0 :: nat)] pattern))) = None
   \<and> input_reply (answering ''  yes  '') = Inr ''  yes  ''
   \<and> ''  yes  '' \<in> set [''YES'', ''Yes'', ''  yes  '']
   \<and> deleted_keys (trace (cleanup_redis_main (answering ''  yes  '')
        [(''inventory:event:processed:a1'', 0 :: nat)])) \<noteq> []"
proof -
  have k: "keys [(''inventory:event:processed:a1'', 0 :: nat)] pattern
             = [''inventory:event:processed:a1'']"
    by (simp add: keys_def pattern_def)
  have p: "snd (preview (answering ''  yes  '') [''inventory:event:processed:a1'']) = None"
    by (simp add: answering_def)
  show ?thesis
    using k p purger_confirmation_normalised [of "answering ''  yes  ''"
        "[(''inventory:event:processed:a1'', 0 :: nat)]" "''  yes  ''"]
    by (simp add: answering_def)
qed

subsection \<open>The frame of a run\<close>

text \<open>
  Claim C10. In every run, whatever the environment answers, the keys a \<^verbatim>\<open>DEL\<close> is
  issued for are an initial part of the result of the pattern scan, in its order; a key
  that is not in the scan result, in particular any key that does not match the pattern,
  has the value it had; the key space is scanned at most once; and a run that exits with
  status 0 has issued a \<^verbatim>\<open>DEL\<close> for none of the scanned keys or for each of them.
\<close>

theorem purger_deletes_only_scanned:
  "(\<exists>m. deleted_keys (trace (cleanup_redis_main env s)) = take m (keys s pattern))
   \<and> (\<forall>k. k \<notin> set (keys s pattern) \<longrightarrow> map_of (final (cleanup_redis_main env s)) k = map_of s k)
   \<and> (\<forall>k. \<not> glob pattern k \<longrightarrow> map_of (final (cleanup_redis_main env s)) k = map_of s k)
   \<and> scans (trace (cleanup_redis_main env s)) \<le> 1
   \<and> (exit_status (cleanup_redis_main env s) = 0 \<longrightarrow>
        deleted_keys (trace (cleanup_redis_main env s)) = []
        \<or> deleted_keys (trace (cleanup_redis_main env s)) = keys s pattern)"
proof -
  let ?ks = "keys s pattern"
  let ?r = "cleanup_redis_main env s"
  let ?l = "delete_loop env (length ?ks) ?ks 0 s"
  have fin: "final ?r = s \<or> final ?r = fst ?l"
    by (simp add: cleanup_redis_main_def Let_def split_beta split: option.splits sum.splits)
  have del: "deleted_keys (trace ?r) = [] \<or> deleted_keys (trace ?r) = deleted_keys (fst (snd ?l))"
    by (simp add: cleanup_redis_main_def Let_def split_beta split: option.splits sum.splits)
  have pre: "\<exists>m. deleted_keys (trace ?r) = take m ?ks"
  proof -
    obtain m where "deleted_keys (fst (snd ?l)) = take m ?ks"
      using delete_loop_issues_prefix by blast
    moreover have "[] = take 0 ?ks" by simp
    ultimately show ?thesis using del by metis
  qed
  have frame: "map_of (final ?r) k = map_of s k" if "k \<notin> set ?ks" for k
    using fin that delete_loop_frame [of k ?ks env "length ?ks" 0 s] by auto
  have frame': "map_of (final ?r) k = map_of s k" if "\<not> glob pattern k" for k
    using frame [of k] that by (simp add: keys_def)
  have one: "scans (trace ?r) \<le> 1"
    by (simp add: cleanup_redis_main_def Let_def split_beta split: option.splits sum.splits)
  have ok: "deleted_keys (trace ?r) = [] \<or> deleted_keys (trace ?r) = ?ks"
    if "exit_status ?r = 0"
    using that delete_loop_issues_all [of env "length ?ks" ?ks 0 s]
    by (simp add: cleanup_redis_main_def Let_def split_beta split: option.splits sum.splits if_splits)
  show ?thesis using pre frame frame' one ok by blast
qed

theorem purger_deletes_only_scanned_witness:
  "''order:77'' \<notin> set (keys [(''inventory:event:processed:a1'', 5 :: nat), (''order:77'', 2)] pattern)
   \<and> \<not> glob pattern ''order:77''
   \<and> exit_status (cleanup_redis_main (answering ''yes'')
        [(''inventory:event:processed:a1'', 5 :: nat), (''order:77'', 2)]) = 0
   \<and> map_of (final (cleanup_redis_main (answering ''yes'')
        [(''inventory:event:processed:a1'', 5 :: nat), (''order:77'', 2)])) ''order:77''
       = map_of [(''inventory:event:processed:a1'', 5 :: nat), (''order:77'', 2)] ''order:77''
   \<and> scans (trace (cleanup_redis_main (answering ''yes'')
        [(''inventory:event:processed:a1'', 5 :: nat), (''order:77'', 2)])) \<le> 1"
proof -
  have y: "lower (strip ''yes'') = ''yes''"
    by code_simp
  have k: "keys [(''inventory:event:processed:a1'', 5 :: nat), (''order:77'', 2)] pattern
             = [''inventory:event:processed:a1'']"
    by (simp add: keys_def pattern_def)
  have g: "\<not> glob pattern ''order:77''"
    by (simp add: pattern_def)
  have e: "exit_status (cleanup_redis_main (answering ''yes'')
        [(''inventory:event:processed:a1'', 5 :: nat), (''order:77'', 2)]) = 0"
    by (simp add: cleanup_redis_main_def answering_def k y Let_def)
  show ?thesis
    using k g e purger_deletes_only_scanned [of "answering ''yes''"
        "[(''inventory:event:processed:a1'', 5 :: nat), (''order:77'', 2)]"]
    by simp
qed

subsection \<open>Two hundred and fifty keys\<close>

lemma progress_lines_simps [simp]:
  "progress_lines [] = []"
  "progress_lines (Delete k # t) = progress_lines t"
  "progress_lines (Print (Progress d n) # t) = (d, n) # progress_lines t"
  "progress_lines (Ping # t) = progress_lines t"
  "progress_lines (Keys p # t) = progress_lines t"
  "progress_lines (Ttl k # t) = progress_lines t"
  "progress_lines (Input n # t) = progress_lines t"
  "progress_lines (t1 @ t2) = progress_lines t1 @ progress_lines t2"
  "progress_lines (Print ConnectingTo # t) = progress_lines t"
  "progress_lines (Print ConnectedTo # t) = progress_lines t"
  "progress_lines (Print (FoundKeys a p) # t) = progress_lines t"
  "progress_lines (Print SampleHeader # t) = progress_lines t"
  "progress_lines (Print (Sample k i) # t) = progress_lines t"
  "progress_lines (Print (MoreKeys a) # t) = progress_lines t"
  "progress_lines (Print Blank # t) = progress_lines t"
  "progress_lines (Print (Deleting a) # t) = progress_lines t"
  "progress_lines (Print (Success a) # t) = progress_lines t"
  by (simp_all add: progress_lines_def)

lemma progress_lines_deletes [simp]: "progress_lines (map Delete ks) = []"
  by (induction ks) simp_all

lemma deleted_keys_deletes [simp]: "deleted_keys (map Delete ks) = ks"
  by (induction ks) simp_all

lemma progress_lines_preview [simp]: "progress_lines (fst (preview env ks)) = []"
  by (induction ks) (auto simp: split_beta split: sum.splits)

lemma delete_loop_append:
  "delete_loop env n (ks1 @ ks2) d s =
     (case delete_loop env n ks1 d s of
        (s1, t1, d1, Some e) \<Rightarrow> (s1, t1, d1, Some e)
      | (s1, t1, d1, None) \<Rightarrow>
          (case delete_loop env n ks2 d1 s1 of (s2, t2, d2, r) \<Rightarrow> (s2, t1 @ t2, d2, r)))"
  by (induction ks1 arbitrary: d s)
     (auto simp: Let_def split: option.splits prod.splits)

lemma delete_loop_quiet:
  "\<forall>k \<in> set ks. del_error env k = None \<Longrightarrow> d mod 100 + length ks < 100 \<Longrightarrow>
   delete_loop env n ks d s = (foldl delete s ks, map Delete ks, d + length ks, None)"
proof (induction ks arbitrary: d s)
  case Nil
  then show ?case by simp
next
  case (Cons k ks)
  from Cons.prems(2) have a: "Suc d mod 100 = Suc (d mod 100)"
    by (simp add: mod_Suc)
  then have b: "Suc d mod 100 + length ks < 100" "Suc d mod 100 \<noteq> 0"
    using Cons.prems(2) by simp_all
  have "delete_loop env n ks (Suc d) (delete s k)
          = (foldl delete (delete s k) ks, map Delete ks, Suc d + length ks, None)"
    using Cons.IH [of "Suc d" "delete s k"] Cons.prems(1) b(1) by simp
  then show ?case
    using Cons.prems(1) b(2) by (simp add: Let_def)
qed

lemma delete_loop_hundred:
  assumes "\<forall>k \<in> set ks. del_error env k = None" and "d mod 100 = 0" and "length ks = 100"
  shows "delete_loop env n ks d s =
           (foldl delete s ks, map Delete ks @ [Print (Progress (d + 100) n)], d + 100, None)"
proof -
  have ne: "ks \<noteq> []" using assms(3) by auto
  then have split: "ks = butlast ks @ [last ks]" by simp
  have q: "delete_loop env n (butlast ks) d s
             = (foldl delete s (butlast ks), map Delete (butlast ks), d + 99, None)"
    using delete_loop_quiet [of "butlast ks" env d n s] assms
    by (auto dest: in_set_butlastD)
  have l: "del_error env (last ks) = None" using assms(1) ne by simp
  have m: "Suc (d + 99) mod 100 = 0" using assms(2) by presburger
  have "delete_loop env n (butlast ks @ [last ks]) d s =
          (foldl delete s (butlast ks @ [last ks]),
           map Delete (butlast ks @ [last ks]) @ [Print (Progress (d + 100) n)], d + 100, None)"
    unfolding delete_loop_append using q l m by (simp add: Let_def)
  with split show ?thesis by simp
qed

lemma foldl_delete: "foldl delete s ks = filter (\<lambda>(k, v). k \<notin> set ks) s"
proof (induction ks arbitrary: s)
  case Nil
  then show ?case by (simp add: split_beta)
next
  case (Cons k ks)
  show ?case
    unfolding foldl_Cons Cons.IH
    by (auto simp: delete_def split_beta intro: filter_cong)
qed

lemma wipe_scanned:
  "filter (\<lambda>(k, v). k \<notin> set (keys s p)) s = filter (\<lambda>(k, v). \<not> glob p k) s"
  by (rule filter_cong) (force simp: keys_def)+

lemma length_unmatched:
  "length (filter (\<lambda>(k, v). \<not> glob p k) s) + length (keys s p) = length s"
  by (induction s) (auto simp: keys_def)

lemma delete_loop_250:
  assumes "\<forall>k \<in> set ks. del_error env k = None" and "length ks = 250"
  shows "delete_loop env n ks 0 s =
           (foldl delete s ks,
            map Delete (take 100 ks) @ [Print (Progress 100 n)]
              @ map Delete (take 100 (drop 100 ks)) @ [Print (Progress 200 n)]
              @ map Delete (drop 200 ks),
            250, None)"
proof -
  let ?a = "take 100 ks" and ?b = "take 100 (drop 100 ks)" and ?c = "drop 200 ks"
  have ks: "ks = ?a @ ?b @ ?c"
    by (metis append_take_drop_id drop_drop numeral_Bit0)
  have la: "length ?a = 100" and lb: "length ?b = 100" and lc: "length ?c = 50"
    using assms(2) by simp_all
  have ok: "\<forall>k \<in> set ?a. del_error env k = None" "\<forall>k \<in> set ?b. del_error env k = None"
    "\<forall>k \<in> set ?c. del_error env k = None"
    using assms(1) by (auto dest: in_set_takeD in_set_dropD)
  have h1: "delete_loop env n ?a 0 s =
              (foldl delete s ?a, map Delete ?a @ [Print (Progress 100 n)], 100, None)"
    using delete_loop_hundred [OF ok(1) _ la, of 0 n s] by simp
  have h2: "delete_loop env n ?b 100 s' =
              (foldl delete s' ?b, map Delete ?b @ [Print (Progress 200 n)], 200, None)" for s'
    using delete_loop_hundred [OF ok(2) _ lb, of 100 n s'] by simp
  have h3: "delete_loop env n ?c 200 s' = (foldl delete s' ?c, map Delete ?c, 250, None)" for s'
    using delete_loop_quiet [OF ok(3), of 200 n s'] lc by simp
  have "delete_loop env n (?a @ ?b @ ?c) 0 s =
          (foldl delete s (?a @ ?b @ ?c),
           map Delete ?a @ [Print (Progress 100 n)] @ map Delete ?b @ [Print (Progress 200 n)]
             @ map Delete ?c,
           250, None)"
    by (simp only: delete_loop_append h1 h2 h3 prod.case option.case foldl_append append_assoc)
  then show ?thesis by (simp only: ks [symmetric])
qed

lemma glob_literal: "p \<noteq> CHR ''*'' \<Longrightarrow> glob (p # ps) (c # t) \<longleftrightarrow> c = p \<and> glob ps t"
  by simp

lemma glob_star: "glob [CHR ''*''] x"
proof (induction x)
  case Nil
  show ?case by simp
next
  case (Cons c x)
  have "glob [CHR ''*''] (c # x) \<longleftrightarrow> glob [] (c # x) \<or> glob [CHR ''*''] x"
    by simp
  with Cons.IH show ?case by blast
qed

lemma ascii_utf8_valid: "\<forall>c \<in> set x. (of_char c :: nat) < 128 \<Longrightarrow> utf8_valid x"
  by (induction x) auto

lemma preview_answering:
  "\<forall>k \<in> set ks. utf8_valid k \<Longrightarrow> snd (preview (answering l) ks) = None"
  by (induction ks) (auto simp: answering_def split_beta)

lemma keys_store250: "keys store250 pattern = map fst store250"
  unfolding keys_def
  by (rule filter_True)
     (auto simp: store250_def pattern_def glob_literal glob_star simp del: glob.simps)

lemma store250_keys_valid: "k \<in> set (keys store250 pattern) \<Longrightarrow> utf8_valid k"
  unfolding keys_store250 by (auto simp: store250_def intro!: ascii_utf8_valid)

text \<open>
  Claim C7. When the scan returns exactly 250 keys, the preview completes so that the
  prompt is shown, the typed line confirms, and no \<^verbatim>\<open>DEL\<close> raises, the run exits
  with status 0 having issued one \<^verbatim>\<open>DEL\<close> for each of the 250 scanned keys; the store
  keeps exactly its entries whose key does not match, 250 fewer than before; and exactly
  two progress lines are printed, one right after the 100th \<^verbatim>\<open>DEL\<close> and one right
  after the 200th.
\<close>

theorem purger_250_keys:
  assumes "ping_error env = None" and "keys_error env = None"
    and "length (keys s pattern) = 250"
    and "snd (preview env (take 10 (keys s pattern))) = None"
    and "input_reply env = Inr line" and "lower (strip line) = ''yes''"
    and "\<forall>k \<in> set (keys s pattern). del_error env k = None"
  shows "exit_status (cleanup_redis_main env s) = 0
         \<and> deleted_keys (trace (cleanup_redis_main env s)) = keys s pattern
         \<and> length (deleted_keys (trace (cleanup_redis_main env s))) = 250
         \<and> final (cleanup_redis_main env s) = filter (\<lambda>(k, v). \<not> glob pattern k) s
         \<and> length (final (cleanup_redis_main env s)) + 250 = length s
         \<and> progress_lines (trace (cleanup_redis_main env s)) = [(100, 250), (200, 250)]
         \<and> (\<exists>t. trace (cleanup_redis_main env s) =
                t @ [Print (Deleting 250)]
                  @ map Delete (take 100 (keys s pattern)) @ [Print (Progress 100 250)]
                  @ map Delete (take 100 (drop 100 (keys s pattern)))
                  @ [Print (Progress 200 250)]
                  @ map Delete (drop 200 (keys s pattern)) @ [Print (Success 250)])"
proof -
  let ?ks = "keys s pattern"
  let ?r = "cleanup_redis_main env s"
  let ?t = "[Print ConnectingTo, Ping, Print ConnectedTo, Keys pattern,
             Print (FoundKeys 250 pattern), Print SampleHeader]
            @ fst (preview env (take 10 ?ks)) @ [Print (MoreKeys 240), Input 250]"
  let ?d = "map Delete (take 100 ?ks) @ [Print (Progress 100 250)]
            @ map Delete (take 100 (drop 100 ?ks)) @ [Print (Progress 200 250)]
            @ map Delete (drop 200 ?ks)"
  have ne: "?ks \<noteq> []" using assms(3) by auto
  have loop: "delete_loop env 250 ?ks 0 s = (foldl delete s ?ks, ?d, 250, None)"
    using delete_loop_250 [OF assms(7) assms(3)] by simp
  have run: "?r = \<lparr>final = foldl delete s ?ks,
                   trace = ?t @ [Print (Deleting 250)] @ ?d @ [Print (Success 250)],
                   exit_status = 0\<rparr>"
    using assms(1,2,4,5,6) ne loop
    by (simp add: cleanup_redis_main_def Let_def split_beta assms(3))
  have fin: "final ?r = filter (\<lambda>(k, v). \<not> glob pattern k) s"
    by (simp add: run foldl_delete wipe_scanned)
  have len: "length (final ?r) + 250 = length s"
    using length_unmatched [of pattern s] by (simp add: fin assms(3))
  have del: "deleted_keys (trace ?r) = ?ks"
  proof -
    have "deleted_keys (trace ?r) = take 100 ?ks @ take 100 (drop 100 ?ks) @ drop 200 ?ks"
      by (simp add: run)
    also have "\<dots> = ?ks"
      by (metis append_take_drop_id drop_drop numeral_Bit0)
    finally show ?thesis .
  qed
  have prog: "progress_lines (trace ?r) = [(100, 250), (200, 250)]"
    by (simp add: run)
  have shape: "trace ?r = ?t @ [Print (Deleting 250)] @ ?d @ [Print (Success 250)]"
    by (simp add: run)
  have ex: "\<exists>t. trace ?r = t @ [Print (Deleting 250)] @ ?d @ [Print (Success 250)]"
    using shape by blast
  have "exit_status ?r = 0" by (simp add: run)
  then show ?thesis
    using del assms(3) fin len prog ex by simp
qed

theorem purger_250_keys_witness:
  "ping_error (answering ''yes'') = None \<and> keys_error (answering ''yes'') = None
   \<and> length (keys store250 pattern) = 250
   \<and> snd (preview (answering ''yes'') (take 10 (keys store250 pattern))) = None
   \<and> input_reply (answering ''yes'') = Inr ''yes'' \<and> lower (strip ''yes'') = ''yes''
   \<and> exit_status (cleanup_redis_main (answering ''yes'') store250) = 0
   \<and> length (deleted_keys (trace (cleanup_redis_main (answering ''yes'') store250))) = 250
   \<and> length (final (cleanup_redis_main (answering ''yes'') store250)) + 250 = length store250
   \<and> progress_lines (trace (cleanup_redis_main (answering ''yes'') store250))
       = [(100, 250), (200, 250)]"
proof -
  have a: "ping_error (answering ''yes'') = None" "keys_error (answering ''yes'') = None"
    "input_reply (answering ''yes'') = Inr ''yes''"
    by (simp_all add: answering_def)
  have n: "length (keys store250 pattern) = 250"
    by (simp add: keys_store250) (simp add: store250_def)
  have p: "snd (preview (answering ''yes'') (take 10 (keys store250 pattern))) = None"
    by (rule preview_answering) (auto dest!: in_set_takeD store250_keys_valid)
  have y: "lower (strip ''yes'') = ''yes''"
    by code_simp
  have d: "\<forall>k \<in> set (keys store250 pattern). del_error (answering ''yes'') k = None"
    by (simp add: answering_def)
  show ?thesis
    using a n p y purger_250_keys [OF a(1) a(2) n p a(3) y d]
    by blast
qed

section \<open>Properties of the Collection Wiper\<close>

subsection \<open>The store after each loop\<close>

lemma delete_many_apply:
  "delete_many s db c db' =
     (if db' = db then map (\<lambda>(n, ds). (n, if n = c then [] else ds)) (s db) else s db')"
  by (simp add: delete_many_def)

lemma map_of_clear:
  "map_of (map (\<lambda>(n, ds). (n, if n = c then [] else ds)) xs) c' =
     (if c' = c then map_option (\<lambda>ds. []) (map_of xs c') else map_of xs c')"
  by (induction xs) auto

lemma clean_collection_store:
  "fst (clean_collection env db c s) =
     (if count_error env db c = None \<and> delete_error env db c = None then delete_many s db c
      else s)"
  by (simp add: clean_collection_def Let_def split: option.splits)

lemma clean_collection_names:
  "map fst (fst (clean_collection env db c s) db') = map fst (s db')"
  by (auto simp: clean_collection_store delete_many_apply split_beta)

lemma clean_collection_lookup:
  "map_of (fst (clean_collection env db c s) db') c' =
     (if db' = db \<and> c' = c \<and> count_error env db c = None \<and> delete_error env db c = None
      then map_option (\<lambda>ds. []) (map_of (s db') c') else map_of (s db') c')"
  by (simp add: clean_collection_store delete_many_apply map_of_clear)

lemma clean_collections_names:
  "map fst (fst (clean_collections env db cs s) db') = map fst (s db')"
  by (induction cs arbitrary: s) (simp_all add: split_beta clean_collection_names)

lemma clean_collections_lookup:
  "map_of (fst (clean_collections env db cs s) db') c =
     (if db' = db \<and> c \<in> set cs \<and> \<not> startswith ''system.'' c
         \<and> count_error env db c = None \<and> delete_error env db c = None
      then map_option (\<lambda>ds. []) (map_of (s db') c) else map_of (s db') c)"
proof (induction cs arbitrary: s)
  case Nil
  show ?case by simp
next
  case (Cons a cs)
  have twice: "map_option (\<lambda>ds. []) (map_option (\<lambda>ds. []) x) = map_option (\<lambda>ds. []) x"
    for x :: "'b list option"
    by (cases x) simp_all
  show ?case
  proof (cases "startswith ''system.'' a")
    case True
    then show ?thesis using Cons.IH [of s] by auto
  next
    case False
    then show ?thesis
      using Cons.IH [of "fst (clean_collection env db a s)"]
      by (auto simp: split_beta clean_collection_lookup twice)
  qed
qed

lemma clean_databases_names:
  "map fst (fst (clean_databases env dbs s) db') = map fst (s db')"
  by (induction dbs arbitrary: s)
     (simp_all add: split_beta Let_def clean_collections_names split: option.splits)

lemma clean_databases_system:
  "startswith ''system.'' c \<Longrightarrow>
   map_of (fst (clean_databases env dbs s) db') c = map_of (s db') c"
  by (induction dbs arbitrary: s)
     (simp_all add: split_beta Let_def clean_collections_lookup split: option.splits)

lemma clean_databases_result:
  "snd (snd (clean_databases env dbs s)) = None \<longleftrightarrow> (\<forall>db \<in> set dbs. list_error env db = None)"
  by (induction dbs arbitrary: s)
     (auto simp: split_beta Let_def split: option.splits)

subsection \<open>The calls of a run\<close>

lemma clean_collection_calls:
  "DeleteMany db' c' \<in> set (snd (clean_collection env db c s)) \<Longrightarrow> db' = db \<and> c' = c"
  "CountDocuments db' c' \<in> set (snd (clean_collection env db c s)) \<Longrightarrow> db' = db \<and> c' = c"
  by (auto simp: clean_collection_def Let_def split: option.splits)

lemma clean_collections_calls:
  "DeleteMany db' c' \<in> set (snd (clean_collections env db cs s)) \<Longrightarrow>
     db' = db \<and> c' \<in> set cs \<and> \<not> startswith ''system.'' c'"
  "CountDocuments db' c' \<in> set (snd (clean_collections env db cs s)) \<Longrightarrow>
     db' = db \<and> c' \<in> set cs \<and> \<not> startswith ''system.'' c'"
  by (induction cs arbitrary: s;
      auto simp: split_beta dest: clean_collection_calls split: if_splits)+

lemma clean_collections_listing:
  "list_collection_names (fst (clean_collections env db cs s)) db' = list_collection_names s db'"
  by (simp add: list_collection_names_def clean_collections_names)

lemma clean_databases_calls:
  "DeleteMany db' c' \<in> set (fst (snd (clean_databases env dbs s))) \<Longrightarrow>
     db' \<in> set dbs \<and> c' \<in> set (list_collection_names s db') \<and> \<not> startswith ''system.'' c'"
  "CountDocuments db' c' \<in> set (fst (snd (clean_databases env dbs s))) \<Longrightarrow>
     db' \<in> set dbs \<and> c' \<in> set (list_collection_names s db') \<and> \<not> startswith ''system.'' c'"
proof (induction dbs arbitrary: s)
  case Nil
  { case 1 then show ?case by simp }
  { case 2 then show ?case by simp }
next
  case (Cons d dbs)
  { case 1
    then show ?case
      using Cons.IH(1) [of s]
        Cons.IH(1) [of "fst (clean_collections env d (list_collection_names s d) s)"]
      by (auto simp: split_beta Let_def clean_collections_listing dest: clean_collections_calls
               split: option.splits if_splits) }
  { case 2
    then show ?case
      using Cons.IH(2) [of s]
        Cons.IH(2) [of "fst (clean_collections env d (list_collection_names s d) s)"]
      by (auto simp: split_beta Let_def clean_collections_listing dest: clean_collections_calls
               split: option.splits if_splits) }
qed

lemma wiper_final:
  "final (cleanup_databases_main env s) =
     (if connect_error env = None \<and> server_info_error env = None
      then fst (clean_databases env DATABASES s) else s)"
  by (simp add: cleanup_databases_main_def split_beta split: option.splits)

lemma wiper_calls:
  "DeleteMany db c \<in> set (trace (cleanup_databases_main env s)) \<Longrightarrow>
     DeleteMany db c \<in> set (fst (snd (clean_databases env DATABASES s)))"
  "CountDocuments db c \<in> set (trace (cleanup_databases_main env s)) \<Longrightarrow>
     CountDocuments db c \<in> set (fst (snd (clean_databases env DATABASES s)))"
  by (auto simp: cleanup_databases_main_def banner_def split_beta split: option.splits)

subsection \<open>System collections\<close>

text \<open>
  Claim C1. For every collection name that starts with \<^verbatim>\<open>system.\<close>, in any database
  and whatever the environment answers, a run issues neither a count nor a delete against
  it, and its documents after the run are those before.
\<close>

theorem wiper_skips_system_collections:
  assumes "startswith ''system.'' c"
  shows "DeleteMany db c \<notin> set (trace (cleanup_databases_main env s))
         \<and> CountDocuments db c \<notin> set (trace (cleanup_databases_main env s))
         \<and> map_of (final (cleanup_databases_main env s) db) c = map_of (s db) c"
proof -
  have "DeleteMany db c \<notin> set (trace (cleanup_databases_main env s))"
    using assms wiper_calls(1) clean_databases_calls(1) by blast
  moreover have "CountDocuments db c \<notin> set (trace (cleanup_databases_main env s))"
    using assms wiper_calls(2) clean_databases_calls(2) by blast
  moreover have "map_of (final (cleanup_databases_main env s) db) c = map_of (s db) c"
    using assms by (simp add: wiper_final clean_databases_system)
  ultimately show ?thesis by blast
qed

theorem wiper_skips_system_collections_witness:
  "startswith ''system.'' ''system.views''
   \<and> DeleteMany ''inventory'' ''system.views''
        \<notin> set (trace (cleanup_databases_main reliable sample_mongo))
   \<and> map_of (final (cleanup_databases_main reliable sample_mongo) ''inventory'') ''system.views''
       = Some [4]"
proof -
  have h: "startswith ''system.'' ''system.views''"
    by (simp add: startswith_def)
  have m: "map_of (sample_mongo ''inventory'') ''system.views'' = Some [4]"
    by (simp add: sample_mongo_def)
  show ?thesis
    using h m wiper_skips_system_collections [OF h, of "''inventory''" reliable sample_mongo]
    by simp
qed

subsection \<open>A database that does not exist\<close>

lemma clean_databases_lists_all:
  "\<forall>d \<in> set dbs. list_error env d = None \<Longrightarrow> db \<in> set dbs \<Longrightarrow>
   ListCollectionNames db \<in> set (fst (snd (clean_databases env dbs s)))"
  by (induction dbs arbitrary: s) (auto simp: split_beta Let_def)

lemma clean_databases_reports_absent:
  "\<forall>d \<in> set dbs. list_error env d = None \<Longrightarrow> db \<in> set dbs \<Longrightarrow>
   list_collection_names s db = [] \<Longrightarrow>
   \<exists>t1 t2. fst (snd (clean_databases env dbs s)) =
     t1 @ [Log (Cleaning db), ListCollectionNames db, Log NoCollections] @ t2"
proof (induction dbs arbitrary: s)
  case Nil
  then show ?case by simp
next
  case (Cons d dbs)
  show ?case
  proof (cases "d = db")
    case True
    have "fst (snd (clean_databases env (d # dbs) s)) =
            [] @ [Log (Cleaning db), ListCollectionNames db, Log NoCollections]
               @ fst (snd (clean_databases env dbs s))"
      using True Cons.prems by (simp add: split_beta)
    then show ?thesis by blast
  next
    case False
    let ?s1 = "if list_collection_names s d = [] then s
               else fst (clean_collections env d (list_collection_names s d) s)"
    let ?p = "if list_collection_names s d = []
              then [Log (Cleaning d), ListCollectionNames d, Log NoCollections]
              else [Log (Cleaning d), ListCollectionNames d,
                    Log (Found (length (list_collection_names s d)))]
                   @ snd (clean_collections env d (list_collection_names s d) s)
                   @ [Log (DatabaseCleaned d)]"
    have step: "fst (snd (clean_databases env (d # dbs) s)) =
                  ?p @ fst (snd (clean_databases env dbs ?s1))"
      using Cons.prems(1) by (simp add: split_beta Let_def)
    have "list_collection_names ?s1 db = []"
      using Cons.prems(3) by (simp add: clean_collections_listing)
    then obtain t1 t2 where
      "fst (snd (clean_databases env dbs ?s1)) =
         t1 @ [Log (Cleaning db), ListCollectionNames db, Log NoCollections] @ t2"
      using Cons.IH [of ?s1] Cons.prems(1,2) False by auto
    then have "fst (snd (clean_databases env (d # dbs) s)) =
         (?p @ t1) @ [Log (Cleaning db), ListCollectionNames db, Log NoCollections] @ t2"
      using step by simp
    then show ?thesis by blast
  qed
qed

lemma wiper_run_listed:
  assumes "connect_error env = None" and "server_info_error env = None"
    and "\<forall>d \<in> set DATABASES. list_error env d = None"
  shows "trace (cleanup_databases_main env s) =
           banner @ [Log Connecting, MongoClient, ServerInfo, Log Connected]
             @ fst (snd (clean_databases env DATABASES s))
             @ [Log Separator, Log Completed, Log Separator, Close,
                case close_error env of None \<Rightarrow> Log Closed | Some e \<Rightarrow> Log (Error e)]"
    and "exit_status (cleanup_databases_main env s) =
           (case close_error env of None \<Rightarrow> 0 | Some e \<Rightarrow> 1)"
proof -
  have "snd (snd (clean_databases env DATABASES s)) = None"
    using assms(3) by (simp add: clean_databases_result)
  then show "trace (cleanup_databases_main env s) =
           banner @ [Log Connecting, MongoClient, ServerInfo, Log Connected]
             @ fst (snd (clean_databases env DATABASES s))
             @ [Log Separator, Log Completed, Log Separator, Close,
                case close_error env of None \<Rightarrow> Log Closed | Some e \<Rightarrow> Log (Error e)]"
    and "exit_status (cleanup_databases_main env s) =
           (case close_error env of None \<Rightarrow> 0 | Some e \<Rightarrow> 1)"
    using assms(1,2)
    by (simp_all add: cleanup_databases_main_def split_beta split: option.splits)
qed

text \<open>
  Claim C5. In a run that connects and whose enumerations all answer, for a listed
  database whose enumeration is empty: the trace holds, one after the other, the start of
  its cleaning, its enumeration and the report that no collections were found; no count
  and no delete is issued for it; its content is unchanged; every listed database is still
  enumerated and the completion is reported, with exit status 0 when closing succeeds; and
  the loop over the databases goes on with the remaining ones from the same store.
\<close>

theorem wiper_absent_database:
  assumes "connect_error env = None" and "server_info_error env = None"
    and "\<forall>d \<in> set DATABASES. list_error env d = None"
    and "db \<in> set DATABASES" and "list_collection_names s db = []"
  shows "(\<exists>t1 t2. trace (cleanup_databases_main env s) =
            t1 @ [Log (Cleaning db), ListCollectionNames db, Log NoCollections] @ t2)
         \<and> (\<forall>c. DeleteMany db c \<notin> set (trace (cleanup_databases_main env s))
                \<and> CountDocuments db c \<notin> set (trace (cleanup_databases_main env s)))
         \<and> final (cleanup_databases_main env s) db = s db
         \<and> (\<forall>d \<in> set DATABASES.
               ListCollectionNames d \<in> set (trace (cleanup_databases_main env s)))
         \<and> Log Completed \<in> set (trace (cleanup_databases_main env s))
         \<and> (close_error env = None \<longrightarrow> exit_status (cleanup_databases_main env s) = 0)
         \<and> (\<forall>rest s'. list_collection_names s' db = [] \<longrightarrow>
               clean_databases env (db # rest) s' =
                 (case clean_databases env rest s' of
                    (s2, t2, r) \<Rightarrow>
                      (s2, [Log (Cleaning db), ListCollectionNames db, Log NoCollections] @ t2,
                       r)))"
proof -
  let ?r = "cleanup_databases_main env s"
  let ?l = "fst (snd (clean_databases env DATABASES s))"
  note tr = wiper_run_listed(1) [OF assms(1,2,3), of s]
  obtain t1 t2 where "?l = t1 @ [Log (Cleaning db), ListCollectionNames db, Log NoCollections] @ t2"
    using clean_databases_reports_absent [OF assms(3,4,5)] by blast
  then have "trace ?r =
      (banner @ [Log Connecting, MongoClient, ServerInfo, Log Connected] @ t1)
        @ [Log (Cleaning db), ListCollectionNames db, Log NoCollections]
        @ (t2 @ [Log Separator, Log Completed, Log Separator, Close,
                 case close_error env of None \<Rightarrow> Log Closed | Some e \<Rightarrow> Log (Error e)])"
    by (simp add: tr)
  then have a: "\<exists>t1 t2. trace ?r =
            t1 @ [Log (Cleaning db), ListCollectionNames db, Log NoCollections] @ t2"
    by blast
  have b: "DeleteMany db c \<notin> set (trace ?r) \<and> CountDocuments db c \<notin> set (trace ?r)" for c
    using assms(5) wiper_calls [of db c env s] clean_databases_calls [of db c env DATABASES s]
    by auto
  have "map fst (final ?r db) = []"
    using assms(1,2,5)
    by (simp add: wiper_final clean_databases_names list_collection_names_def)
  moreover have "map fst (s db) = []"
    using assms(5) by (simp add: list_collection_names_def)
  ultimately have c: "final ?r db = s db" by simp
  have d: "\<forall>d \<in> set DATABASES. ListCollectionNames d \<in> set (trace ?r)"
    using clean_databases_lists_all [OF assms(3), of _ s] by (auto simp: tr)
  have e: "Log Completed \<in> set (trace ?r)" by (simp add: tr)
  have f: "close_error env = None \<longrightarrow> exit_status ?r = 0"
    by (simp add: wiper_run_listed(2) [OF assms(1,2,3)])
  have g: "\<forall>rest s'. list_collection_names s' db = [] \<longrightarrow>
               clean_databases env (db # rest) s' =
                 (case clean_databases env rest s' of
                    (s2, t2, r) \<Rightarrow>
                      (s2, [Log (Cleaning db), ListCollectionNames db, Log NoCollections] @ t2,
                       r))"
    using assms(3,4) by simp
  show ?thesis using a b c d e f g by blast
qed

theorem wiper_absent_database_witness:
  "connect_error reliable = None \<and> server_info_error reliable = None
   \<and> ''payment'' \<in> set DATABASES \<and> list_collection_names sample_mongo ''payment'' = []
   \<and> close_error reliable = None
   \<and> final (cleanup_databases_main reliable sample_mongo) ''payment'' = sample_mongo ''payment''
   \<and> ListCollectionNames ''product'' \<in> set (trace (cleanup_databases_main reliable sample_mongo))
   \<and> Log Completed \<in> set (trace (cleanup_databases_main reliable sample_mongo))
   \<and> exit_status (cleanup_databases_main reliable sample_mongo) = 0"
proof -
  have a: "connect_error reliable = None" "server_info_error reliable = None"
    "\<forall>d \<in> set DATABASES. list_error reliable d = None" "close_error reliable = None"
    by (simp_all add: reliable_def)
  have b: "''payment'' \<in> set DATABASES" "''product'' \<in> set DATABASES"
    by (simp_all add: DATABASES_def)
  have c: "list_collection_names sample_mongo ''payment'' = []"
    by (simp add: list_collection_names_def sample_mongo_def)
  show ?thesis
    using a(1,2,4) b c wiper_absent_database [OF a(1) a(2) a(3) b(1) c]
    by blast
qed

subsection \<open>A failure on one collection\<close>

lemma handled_mono: "handled env db c t \<Longrightarrow> set t \<subseteq> set t' \<Longrightarrow> handled env db c t'"
  by (auto simp: handled_def split: option.splits)

lemma handled_within [intro]:
  "handled env db c t \<Longrightarrow> handled env db c (t1 @ t)"
  "handled env db c t \<Longrightarrow> handled env db c (t @ t2)"
  "handled env db c t \<Longrightarrow> handled env db c (x # t)"
  by (auto elim!: handled_mono)

lemma clean_collection_handled: "handled env db c (snd (clean_collection env db c s))"
  by (simp add: handled_def clean_collection_def Let_def split: option.splits)

lemma clean_collections_handled:
  "c \<in> set cs \<Longrightarrow> \<not> startswith ''system.'' c \<Longrightarrow>
   handled env db c (snd (clean_collections env db cs (s :: 'd mongo)))"
proof (induction cs arbitrary: s)
  case Nil
  then show ?case by simp
next
  case (Cons a cs)
  show ?case
  proof (cases "a = c")
    case True
    have "handled env db c (snd (clean_collection env db c s))"
      by (rule clean_collection_handled)
    then show ?thesis
      using True Cons.prems(2) by (auto simp: split_beta)
  next
    case False
    then have "c \<in> set cs" using Cons.prems(1) by simp
    then have "handled env db c (snd (clean_collections env db cs s'))" for s' :: "'d mongo"
      using Cons.IH Cons.prems(2) by blast
    then show ?thesis
      by (auto simp: split_beta)
  qed
qed

lemma clean_databases_step:
  assumes "list_error env d = None"
  shows "fst (snd (clean_databases env (d # dbs) s)) =
           (if list_collection_names s d = []
            then [Log (Cleaning d), ListCollectionNames d, Log NoCollections]
            else [Log (Cleaning d), ListCollectionNames d,
                  Log (Found (length (list_collection_names s d)))]
                 @ snd (clean_collections env d (list_collection_names s d) s)
                 @ [Log (DatabaseCleaned d)])
           @ fst (snd (clean_databases env dbs
                   (fst (clean_collections env d (list_collection_names s d) s))))"
  using assms by (simp add: split_beta Let_def)

lemma clean_databases_handled:
  "\<forall>d \<in> set dbs. list_error env d = None \<Longrightarrow> db \<in> set dbs \<Longrightarrow>
   c \<in> set (list_collection_names s db) \<Longrightarrow> \<not> startswith ''system.'' c \<Longrightarrow>
   handled env db c (fst (snd (clean_databases env dbs (s :: 'd mongo))))"
proof (induction dbs arbitrary: s)
  case Nil
  then show ?case by simp
next
  case (Cons d dbs)
  let ?cs = "list_collection_names s d"
  let ?s1 = "fst (clean_collections env d ?cs s)"
  have ok: "list_error env d = None" using Cons.prems(1) by simp
  show ?case
  proof (cases "d = db")
    case True
    have h: "handled env db c (snd (clean_collections env d ?cs s))"
      using True Cons.prems(3,4) by (simp add: clean_collections_handled)
    have ne: "?cs \<noteq> []"
      using True Cons.prems(3) by auto
    show ?thesis
      unfolding clean_databases_step [OF ok]
      by (rule handled_mono [OF h]) (use ne in auto)
  next
    case False
    have "list_collection_names ?s1 db = list_collection_names s db"
      by (simp add: clean_collections_listing)
    then have h: "handled env db c (fst (snd (clean_databases env dbs ?s1)))"
      using Cons.IH [of ?s1] Cons.prems False by auto
    show ?thesis
      unfolding clean_databases_step [OF ok]
      by (rule handled_mono [OF h]) auto
  qed
qed

lemma absent_lookup: "c \<notin> set (list_collection_names s db) \<Longrightarrow> map_of (s db) c = None"
  by (simp add: list_collection_names_def map_of_eq_None_iff)

lemma clean_databases_lookup:
  "\<forall>d \<in> set dbs. list_error env d = None \<Longrightarrow>
   map_of (fst (clean_databases env dbs (s :: 'd mongo)) db') c =
     (if db' \<in> set dbs \<and> \<not> startswith ''system.'' c
         \<and> count_error env db' c = None \<and> delete_error env db' c = None
      then map_option (\<lambda>ds. []) (map_of (s db') c) else map_of (s db') c)"
proof (induction dbs arbitrary: s)
  case Nil
  show ?case by simp
next
  case (Cons d dbs)
  let ?cs = "list_collection_names s d"
  let ?s1 = "fst (clean_collections env d ?cs s)"
  have twice: "map_option (\<lambda>ds. []) (map_option (\<lambda>ds. []) x) = map_option (\<lambda>ds. []) x"
    for x :: "'d list option"
    by (cases x) simp_all
  have ih: "map_of (fst (clean_databases env dbs s') db') c =
     (if db' \<in> set dbs \<and> \<not> startswith ''system.'' c
         \<and> count_error env db' c = None \<and> delete_error env db' c = None
      then map_option (\<lambda>ds. []) (map_of (s' db') c) else map_of (s' db') c)"
    for s' :: "'d mongo"
    using Cons.IH Cons.prems by simp
  have first: "map_of (?s1 x) c =
     (if x = d \<and> \<not> startswith ''system.'' c
         \<and> count_error env d c = None \<and> delete_error env d c = None
      then map_option (\<lambda>ds. []) (map_of (s x) c) else map_of (s x) c)" for x
    using absent_lookup [of c s d] by (auto simp: clean_collections_lookup)
  have none: "map_of (s d) c = None" if "?cs = []"
    using that absent_lookup [of c s d] by simp
  show ?case
  proof (cases "?cs = []")
    case True
    then show ?thesis
      using Cons.prems none by (auto simp: split_beta Let_def ih)
  next
    case False
    then show ?thesis
      using Cons.prems by (auto simp: split_beta Let_def ih first twice)
  qed
qed

text \<open>
  Claim C2. In a run where only counting and deleting may raise, whatever they raise: the
  exit status is 0 and the completion is reported; every listed database is enumerated;
  and every collection outside the system prefix of every listed database is counted, its
  failure (of the count, or of the delete that follows a successful count) is logged with
  the collection's name, and a collection whose two calls succeed is empty at the end.
\<close>

theorem wiper_isolates_collection_failures:
  assumes "connect_error env = None" and "server_info_error env = None"
    and "\<forall>d \<in> set DATABASES. list_error env d = None" and "close_error env = None"
  shows "exit_status (cleanup_databases_main env s) = 0
         \<and> Log Completed \<in> set (trace (cleanup_databases_main env s))
         \<and> (\<forall>db \<in> set DATABASES.
               ListCollectionNames db \<in> set (trace (cleanup_databases_main env s)))
         \<and> (\<forall>db \<in> set DATABASES. \<forall>c \<in> set (list_collection_names s db).
               \<not> startswith ''system.'' c \<longrightarrow>
                 CountDocuments db c \<in> set (trace (cleanup_databases_main env s))
                 \<and> (\<forall>e. count_error env db c = Some e \<longrightarrow>
                        Log (Failed c e) \<in> set (trace (cleanup_databases_main env s)))
                 \<and> (count_error env db c = None \<longrightarrow>
                        DeleteMany db c \<in> set (trace (cleanup_databases_main env s)))
                 \<and> (\<forall>e. count_error env db c = None \<and> delete_error env db c = Some e \<longrightarrow>
                        Log (Failed c e) \<in> set (trace (cleanup_databases_main env s)))
                 \<and> (count_error env db c = None \<and> delete_error env db c = None \<longrightarrow>
                        map_of (final (cleanup_databases_main env s) db) c = Some []))"
proof -
  let ?r = "cleanup_databases_main env s"
  note tr = wiper_run_listed(1) [OF assms(1,2,3), of s]
  have a: "exit_status ?r = 0"
    by (simp add: wiper_run_listed(2) [OF assms(1,2,3)] assms(4))
  have b: "Log Completed \<in> set (trace ?r)" by (simp add: tr)
  have c: "\<forall>db \<in> set DATABASES. ListCollectionNames db \<in> set (trace ?r)"
    using clean_databases_lists_all [OF assms(3), of _ s] by (auto simp: tr)
  have d: "CountDocuments db c \<in> set (trace ?r)
           \<and> (\<forall>e. count_error env db c = Some e \<longrightarrow> Log (Failed c e) \<in> set (trace ?r))
           \<and> (count_error env db c = None \<longrightarrow> DeleteMany db c \<in> set (trace ?r))
           \<and> (\<forall>e. count_error env db c = None \<and> delete_error env db c = Some e \<longrightarrow>
                  Log (Failed c e) \<in> set (trace ?r))
           \<and> (count_error env db c = None \<and> delete_error env db c = None \<longrightarrow>
                  map_of (final ?r db) c = Some [])"
    if db: "db \<in> set DATABASES" and c: "c \<in> set (list_collection_names s db)"
      and n: "\<not> startswith ''system.'' c" for db c
  proof -
    have "handled env db c (fst (snd (clean_databases env DATABASES s)))"
      using assms(3) db c n by (rule clean_databases_handled)
    then have h: "handled env db c (trace ?r)"
      unfolding tr by (rule handled_mono) auto
    obtain ds where "map_of (s db) c = Some ds"
      using c by (cases "map_of (s db) c") (auto simp: list_collection_names_def map_of_eq_None_iff)
    then have "map_of (final ?r db) c = Some []"
      if "count_error env db c = None" "delete_error env db c = None"
      using that db n assms(1,2) by (simp add: wiper_final clean_databases_lookup [OF assms(3)])
    then show ?thesis
      using h by (auto simp: handled_def split: option.splits)
  qed
  show ?thesis using a b c d by blast
qed

theorem wiper_isolates_collection_failures_witness:
  "connect_error flaky = None \<and> server_info_error flaky = None \<and> close_error flaky = None
   \<and> ''inventory'' \<in> set DATABASES \<and> ''order'' \<in> set DATABASES
   \<and> ''items'' \<in> set (list_collection_names sample_mongo ''inventory'')
   \<and> ''orders'' \<in> set (list_collection_names sample_mongo ''order'')
   \<and> count_error flaky ''inventory'' ''items'' = None
   \<and> delete_error flaky ''inventory'' ''items'' = Some (OtherError ''timeout'')
   \<and> count_error flaky ''order'' ''orders'' = None
   \<and> delete_error flaky ''order'' ''orders'' = None
   \<and> exit_status (cleanup_databases_main flaky sample_mongo) = 0
   \<and> Log (Failed ''items'' (OtherError ''timeout''))
        \<in> set (trace (cleanup_databases_main flaky sample_mongo))
   \<and> DeleteMany ''order'' ''orders'' \<in> set (trace (cleanup_databases_main flaky sample_mongo))
   \<and> map_of (final (cleanup_databases_main flaky sample_mongo) ''order'') ''orders'' = Some []"
proof -
  have a: "connect_error flaky = None" "server_info_error flaky = None"
    "\<forall>d \<in> set DATABASES. list_error flaky d = None" "close_error flaky = None"
    by (simp_all add: flaky_def reliable_def)
  have b: "''inventory'' \<in> set DATABASES" "''order'' \<in> set DATABASES"
    by (simp_all add: DATABASES_def)
  have c: "''items'' \<in> set (list_collection_names sample_mongo ''inventory'')"
    "''orders'' \<in> set (list_collection_names sample_mongo ''order'')"
    by (simp_all add: list_collection_names_def sample_mongo_def)
  have n: "\<not> startswith ''system.'' ''items''" "\<not> startswith ''system.'' ''orders''"
    by (simp_all add: startswith_def)
  have e: "count_error flaky ''inventory'' ''items'' = None"
    "delete_error flaky ''inventory'' ''items'' = Some (OtherError ''timeout'')"
    "count_error flaky ''order'' ''orders'' = None"
    "delete_error flaky ''order'' ''orders'' = None"
    by (simp_all add: flaky_def reliable_def)
  note t = wiper_isolates_collection_failures [OF a(1) a(2) a(3) a(4), of sample_mongo]
  show ?thesis
    using a(1,2,4) b c n e t by blast
qed

subsection \<open>The exit status\<close>




subsection \<open>Running twice\<close>

lemma deleted_counts_simps [simp]:
  "deleted_counts [] = []"
  "deleted_counts (Log (Deleted n c) # t) = n # deleted_counts t"
  "deleted_counts (t1 @ t2) = deleted_counts t1 @ deleted_counts t2"
  "(\<And>n c. ev \<noteq> Log (Deleted n c)) \<Longrightarrow> deleted_counts (ev # t) = deleted_counts t"
proof -
  show "(\<And>n c. ev \<noteq> Log (Deleted n c)) \<Longrightarrow> deleted_counts (ev # t) = deleted_counts t"
  proof -
    assume a: "\<And>n c. ev \<noteq> Log (Deleted n c)"
    have "(case ev of Log (Deleted n c) \<Rightarrow> [n] | _ \<Rightarrow> []) = []"
      using a by (auto split: wiper_event.splits wiper_msg.splits)
    then show ?thesis by (simp add: deleted_counts_def)
  qed
qed (simp_all add: deleted_counts_def)

lemma clean_collection_reliable:
  "clean_collection reliable db c s =
     (delete_many s db c,
      [CountDocuments db c, DeleteMany db c, Log (Deleted (count_documents s db c) c)])"
  by (simp add: clean_collection_def reliable_def)

lemma clean_collections_reliable_store:
  "fst (clean_collections reliable db cs (s :: 'd mongo)) =
     s(db := map (\<lambda>(n, ds). (n, if n \<in> set cs \<and> \<not> startswith ''system.'' n then [] else ds))
                 (s db))"
proof (induction cs arbitrary: s)
  case Nil
  show ?case by (simp add: split_beta)
next
  case (Cons a cs)
  show ?case
  proof (cases "startswith ''system.'' a")
    case True
    then have "(\<lambda>(n, ds :: 'd list). (n, if n \<in> set (a # cs) \<and> \<not> startswith ''system.'' n then [] else ds))
             = (\<lambda>(n, ds). (n, if n \<in> set cs \<and> \<not> startswith ''system.'' n then [] else ds))"
      by (auto simp: fun_eq_iff)
    then show ?thesis using True Cons.IH [of s] by simp
  next
    case False
    have "fst (clean_collections reliable db (a # cs) s)
            = fst (clean_collections reliable db cs (delete_many s db a))"
      using False by (simp add: split_beta clean_collection_reliable)
    also have "\<dots> = (delete_many s db a)
        (db := map (\<lambda>(n, ds). (n, if n \<in> set cs \<and> \<not> startswith ''system.'' n then [] else ds))
                 (delete_many s db a db))"
      by (rule Cons.IH)
    also have "\<dots> = s(db := map (\<lambda>(n, ds).
                  (n, if n \<in> set (a # cs) \<and> \<not> startswith ''system.'' n then [] else ds)) (s db))"
      using False by (auto simp: delete_many_def fun_eq_iff split_beta)
    finally show ?thesis .
  qed
qed

lemma clean_databases_reliable_store:
  "fst (clean_databases reliable dbs (s :: 'd mongo)) db' =
     (if db' \<in> set dbs
      then map (\<lambda>(n, ds). (n, if startswith ''system.'' n then ds else [])) (s db')
      else s db')"
proof (induction dbs arbitrary: s)
  case Nil
  show ?case by simp
next
  case (Cons d dbs)
  let ?w = "\<lambda>(n, ds :: 'd list). (n, if startswith ''system.'' n then ds else [])"
  let ?s1 = "fst (clean_collections reliable d (list_collection_names s d) s)"
  have s1: "?s1 = s(d := map ?w (s d))"
    unfolding clean_collections_reliable_store
    by (auto simp: list_collection_names_def fun_eq_iff split_beta intro!: map_cong [OF refl])
  have step: "fst (clean_databases reliable (d # dbs) s) = fst (clean_databases reliable dbs ?s1)"
    by (simp add: split_beta Let_def reliable_def)
  have "fst (clean_databases reliable (d # dbs) s) db' = fst (clean_databases reliable dbs ?s1) db'"
    by (simp only: step)
  also have "\<dots> = (if db' \<in> set dbs then map ?w (?s1 db') else ?s1 db')"
    by (rule Cons.IH)
  also have "\<dots> = (if db' \<in> set (d # dbs) then map ?w (s db') else s db')"
    by (auto simp: s1 split_beta)
  finally show ?case .
qed

lemma already_empty:
  assumes "\<forall>(n, ds) \<in> set (s db). \<not> startswith ''system.'' n \<longrightarrow> ds = []"
    and "\<not> startswith ''system.'' c"
  shows "delete_many s db c = s" and "count_documents s db c = 0"
proof -
  have "map (\<lambda>(n, ds). (n, if n = c then [] else ds)) (s db) = s db"
    using assms by (intro map_idI) auto
  then show "delete_many s db c = s"
    by (simp add: delete_many_def)
  show "count_documents s db c = 0"
    using assms by (auto simp: count_documents_def split: option.splits dest!: map_of_SomeD)
qed

lemma clean_collections_nothing_left:
  assumes "\<forall>(n, ds) \<in> set (s db). \<not> startswith ''system.'' n \<longrightarrow> ds = []"
  shows "fst (clean_collections reliable db cs s) = s
         \<and> sum_list (deleted_counts (snd (clean_collections reliable db cs s))) = 0"
  using assms
  by (induction cs) (simp_all add: split_beta clean_collection_reliable already_empty)

lemma clean_databases_nothing_left:
  assumes "\<forall>db \<in> set dbs. \<forall>(n, ds) \<in> set (s db). \<not> startswith ''system.'' n \<longrightarrow> ds = []"
  shows "fst (clean_databases reliable dbs s) = s
         \<and> sum_list (deleted_counts (fst (snd (clean_databases reliable dbs s)))) = 0"
  using assms
proof (induction dbs)
  case Nil
  show ?case by simp
next
  case (Cons d dbs)
  have le: "list_error reliable d = None" by (simp add: reliable_def)
  have d: "\<forall>(n, ds) \<in> set (s d). \<not> startswith ''system.'' n \<longrightarrow> ds = []"
    using Cons.prems by simp
  have cc: "fst (clean_collections reliable d (list_collection_names s d) s) = s
         \<and> sum_list (deleted_counts
               (snd (clean_collections reliable d (list_collection_names s d) s))) = 0"
    using d by (rule clean_collections_nothing_left)
  have ih: "fst (clean_databases reliable dbs s) = s
         \<and> sum_list (deleted_counts (fst (snd (clean_databases reliable dbs s)))) = 0"
    using Cons.IH Cons.prems by simp
  show ?case
    using cc ih by (auto simp: split_beta Let_def le)
qed

text \<open>
  Claim C6. On a server where every call succeeds, a second run started from the store
  the first run left ends in that same store; both runs exit with status 0; after the
  first run every collection outside the system prefix of every listed database is empty;
  and the document counts the second run reports add up to 0.
\<close>

theorem wiper_idempotent:
  "final (cleanup_databases_main reliable (final (cleanup_databases_main reliable s)))
     = final (cleanup_databases_main reliable s)
   \<and> exit_status (cleanup_databases_main reliable s) = 0
   \<and> exit_status (cleanup_databases_main reliable (final (cleanup_databases_main reliable s))) = 0
   \<and> (\<forall>db \<in> set DATABASES. \<forall>(c, ds) \<in> set (final (cleanup_databases_main reliable s) db).
         \<not> startswith ''system.'' c \<longrightarrow> ds = [])
   \<and> sum_list (deleted_counts
        (trace (cleanup_databases_main reliable (final (cleanup_databases_main reliable s))))) = 0"
proof -
  let ?s1 = "final (cleanup_databases_main reliable s)"
  have ok: "connect_error reliable = None" "server_info_error reliable = None"
    "\<forall>d \<in> set DATABASES. list_error reliable d = None" "close_error reliable = None"
    by (simp_all add: reliable_def)
  have fin: "final (cleanup_databases_main reliable s') = fst (clean_databases reliable DATABASES s')"
    for s' :: "'a mongo"
    by (simp add: wiper_final ok)
  have ex: "exit_status (cleanup_databases_main reliable s') = 0" for s' :: "'a mongo"
    by (simp add: wiper_run_listed(2) [OF ok(1,2,3)] ok(4))
  have empty: "\<forall>db \<in> set DATABASES. \<forall>(c, ds) \<in> set (?s1 db). \<not> startswith ''system.'' c \<longrightarrow> ds = []"
    by (auto simp: fin clean_databases_reliable_store)
  note again = clean_databases_nothing_left [OF empty]
  have same: "final (cleanup_databases_main reliable ?s1) = ?s1"
    using again by (simp add: fin)
  have "sum_list (deleted_counts (trace (cleanup_databases_main reliable ?s1))) = 0"
    using again by (simp add: wiper_run_listed(1) [OF ok(1,2,3)] ok(4) banner_def)
  then show ?thesis using same ex empty by blast
qed

theorem wiper_idempotent_witness:
  "''inventory'' \<in> set DATABASES
   \<and> (''items'', []) \<in> set (final (cleanup_databases_main reliable sample_mongo) ''inventory'')
   \<and> \<not> startswith ''system.'' ''items''
   \<and> final (cleanup_databases_main reliable (final (cleanup_databases_main reliable sample_mongo)))
       ''inventory'' = [(''items'', []), (''system.views'', [4])]
   \<and> sum_list (deleted_counts (trace (cleanup_databases_main reliable
        (final (cleanup_databases_main reliable sample_mongo))))) = 0"
proof -
  have f: "final (cleanup_databases_main reliable sample_mongo) ''inventory''
             = [(''items'', []), (''system.views'', [4])]"
    by (simp add: wiper_final reliable_def [symmetric] clean_databases_reliable_store)
       (simp add: reliable_def DATABASES_def sample_mongo_def startswith_def)
  note t = wiper_idempotent [of sample_mongo]
  have g: "final (cleanup_databases_main reliable (final (cleanup_databases_main reliable sample_mongo)))
       ''inventory'' = [(''items'', []), (''system.views'', [4])]"
    using t f by simp
  show ?thesis
    using t f g by (simp add: DATABASES_def startswith_def)
qed

end
